theory Spec2Isabelle
  imports Main "HOL-Library.AList"
begin

section \<open>Values, hashes and signals\<close>

text \<open>
  A \<open>QVariant\<close> is either the default-constructed, invalid variant \<open>QVariant()\<close>, which the
  code uses as the Absent marker, or a variant carrying a payload (a boolean, a number, a
  string, a list). The payload type is left open; \<open>operator!=\<close> of \<open>QVariant\<close> is read as
  disequality of the payloads.
\<close>

datatype 'v qvariant = Invalid | Value 'v

text \<open>
  \<open>QHash<QString, QVariant>\<close> as an association list. The iteration order of a \<open>QHash\<close> is
  unspecified; the list order stands for one such order, and the properties below are
  stated on \<open>map_of\<close> or on the set of emitted signals.
\<close>

type_synonym 'v qhash = "(string \<times> 'v qvariant) list"

definition hash_contains :: "'v qhash \<Rightarrow> string \<Rightarrow> bool" where
  "hash_contains h k = (k \<in> set (map fst h))"

definition hash_value :: "'v qhash \<Rightarrow> string \<Rightarrow> 'v qvariant" where
  "hash_value h k = (case map_of h k of None \<Rightarrow> Invalid | Some v \<Rightarrow> v)"

definition hash_insert :: "string \<Rightarrow> 'v qvariant \<Rightarrow> 'v qhash \<Rightarrow> 'v qhash" where
  "hash_insert k v h = AList.update k v h"

definition hash_remove :: "string \<Rightarrow> 'v qhash \<Rightarrow> 'v qhash" where
  "hash_remove k h = AList.delete k h"

definition hash_keys :: "'v qhash \<Rightarrow> string list" where
  "hash_keys h = remdups (map fst h)"

datatype 'v signal =
    ValueChanged string "'v qvariant"
  | ExternalValueChanged string string "'v qvariant"

section \<open>The backing file store\<close>

text \<open>
  Modelled from the spec: the Backing File Store is Qt's \<open>QSettings\<close> in \<open>IniFormat\<close>, a
  library outside the repository. It is modelled after the contract of section 4.1 of the
  specification (get, set, remove, keys, clear, flush over a flat key-value file, a missing
  file being an empty map) and after the documented behaviour of \<open>QSettings::sync\<close>: unsaved
  changes are written to the file, and what other processes wrote in the meantime is
  reloaded. Unsaved changes are kept as a log that is replayed over the file's content.
  A write fails when the file system is not writable (disk full, permission denied); the
  store then records \<open>AccessError\<close> in its status and keeps the unsaved changes.

  The directory \<open><config-dir>/unisettings\<close> is the list of its \<open>*.conf\<close> files, each a file
  name with its key-value content.
\<close>

record 'v filesystem =
  confFiles :: "(string \<times> 'v qhash) list"
  writable :: bool

definition read_file :: "'v filesystem \<Rightarrow> string \<Rightarrow> 'v qhash" where
  "read_file fs name = (case map_of (confFiles fs) name of None \<Rightarrow> [] | Some h \<Rightarrow> h)"

definition write_file :: "string \<Rightarrow> 'v qhash \<Rightarrow> 'v filesystem \<Rightarrow> 'v filesystem" where
  "write_file name h fs = fs\<lparr>confFiles := AList.update name h (confFiles fs)\<rparr>"

definition file_exists :: "'v filesystem \<Rightarrow> string \<Rightarrow> bool" where
  "file_exists fs name = (name \<in> set (map fst (confFiles fs)))"

datatype 'v pending = PSet string "'v qvariant" | PRemove string | PClear

fun apply_pending :: "'v qhash \<Rightarrow> 'v pending \<Rightarrow> 'v qhash" where
  "apply_pending h (PSet k v) = AList.update k v h"
| "apply_pending h (PRemove k) = AList.delete k h"
| "apply_pending h PClear = []"

datatype qstatus = NoError | AccessError | FormatError

record 'v qsettings =
  fileName :: string
  loaded :: "'v qhash"
  pending :: "'v pending list"
  status :: qstatus

definition qs_open :: "'v filesystem \<Rightarrow> string \<Rightarrow> 'v qsettings" where
  "qs_open fs name =
     \<lparr>fileName = name, loaded = read_file fs name, pending = [], status = NoError\<rparr>"

definition qs_view :: "'v qsettings \<Rightarrow> 'v qhash" where
  "qs_view q = foldl apply_pending (loaded q) (pending q)"

definition qs_value :: "'v qsettings \<Rightarrow> string \<Rightarrow> 'v qvariant \<Rightarrow> 'v qvariant" where
  "qs_value q k d = (case map_of (qs_view q) k of None \<Rightarrow> d | Some v \<Rightarrow> v)"

definition qs_contains :: "'v qsettings \<Rightarrow> string \<Rightarrow> bool" where
  "qs_contains q k = (k \<in> set (map fst (qs_view q)))"

definition qs_allKeys :: "'v qsettings \<Rightarrow> string list" where
  "qs_allKeys q = hash_keys (qs_view q)"

definition qs_setValue :: "string \<Rightarrow> 'v qvariant \<Rightarrow> 'v qsettings \<Rightarrow> 'v qsettings" where
  "qs_setValue k v q = q\<lparr>pending := pending q @ [PSet k v]\<rparr>"

definition qs_remove :: "string \<Rightarrow> 'v qsettings \<Rightarrow> 'v qsettings" where
  "qs_remove k q = q\<lparr>pending := pending q @ [PRemove k]\<rparr>"

definition qs_clear :: "'v qsettings \<Rightarrow> 'v qsettings" where
  "qs_clear q = q\<lparr>pending := pending q @ [PClear]\<rparr>"

definition qs_sync :: "'v filesystem \<Rightarrow> 'v qsettings \<Rightarrow> 'v filesystem \<times> 'v qsettings" where
  "qs_sync fs q =
     (if pending q = [] then (fs, q\<lparr>loaded := read_file fs (fileName q)\<rparr>)
      else if writable fs then
        (let merged = foldl apply_pending (read_file fs (fileName q)) (pending q)
         in (write_file (fileName q) merged fs, q\<lparr>loaded := merged, pending := []\<rparr>))
      else (fs, q\<lparr>status := AccessError\<rparr>))"

section \<open>UniSettingsPrivate\<close>

datatype scope = SystemScope | ApplicationScope

text \<open>
  The fields of \<open>UniSettingsPrivate\<close>. \<open>configPath\<close> is the file's name inside the
  configuration directory; \<open>watched\<close> is \<open>watcher->files()\<close>.
\<close>

record 'v unisettings =
  appName :: string
  scope :: scope
  configPath :: string
  settings :: "'v qsettings"
  currentGroup :: string
  watched :: "string list"
  cachedValues :: "'v qhash"
  appCachedValues :: "(string \<times> 'v qhash) list"
  ignoreNextChange :: bool

definition fullKey :: "'v unisettings \<Rightarrow> string \<Rightarrow> string" where
  "fullKey s key =
     (if currentGroup s = [] then key else currentGroup s @ ''/'' @ key)"

text \<open>\<open>cacheAllValues\<close>: clear the cache, then copy every key of the store into it.\<close>

definition cacheAllValues :: "'v qsettings \<Rightarrow> 'v qhash" where
  "cacheAllValues q =
     fold (\<lambda>key cache. hash_insert key (qs_value q key Invalid) cache) (qs_allKeys q) []"

text \<open>
  The two loops of \<open>detectChanges\<close> and \<open>detectAppChanges\<close>. Both thread the delta
  \<open>changes\<close> and the cache. \<open>newValueOf\<close> is \<open>settings->value(key)\<close>.
\<close>

definition scanCurrentStep ::
  "(string \<Rightarrow> 'v qvariant) \<Rightarrow> string \<Rightarrow> 'v qhash \<times> 'v qhash \<Rightarrow> 'v qhash \<times> 'v qhash" where
  "scanCurrentStep newValueOf key cc =
     (let changes = fst cc; cached = snd cc;
          newValue = newValueOf key;
          oldValue = hash_value cached key
      in if \<not> hash_contains cached key \<or> newValue \<noteq> oldValue
         then (hash_insert key newValue changes, hash_insert key newValue cached)
         else (changes, cached))"

definition scanRemovedStep :: "string \<Rightarrow> 'v qhash \<times> 'v qhash \<Rightarrow> 'v qhash \<times> 'v qhash" where
  "scanRemovedStep key cc = (hash_insert key Invalid (fst cc), hash_remove key (snd cc))"

definition diffAgainst :: "'v qsettings \<Rightarrow> 'v qhash \<Rightarrow> 'v qhash \<times> 'v qhash" where
  "diffAgainst q cached =
     (let currentKeys = qs_allKeys q;
          cachedKeysList = hash_keys cached;
          cc1 = fold (scanCurrentStep (\<lambda>key. qs_value q key Invalid)) currentKeys ([], cached);
          removedKeys = filter (\<lambda>k. k \<notin> set currentKeys) cachedKeysList
      in fold scanRemovedStep removedKeys cc1)"

definition detectChanges ::
  "'v filesystem \<Rightarrow> 'v unisettings \<Rightarrow> 'v qhash \<times> 'v filesystem \<times> 'v unisettings" where
  "detectChanges fs s =
     (if ignoreNextChange s then ([], fs, s\<lparr>ignoreNextChange := False\<rparr>)
      else
        (let fq = qs_sync fs (settings s);
             cc = diffAgainst (snd fq) (cachedValues s)
         in (fst cc, fst fq, s\<lparr>settings := snd fq, cachedValues := snd cc\<rparr>)))"

text \<open>
  \<open>detectAppChanges\<close> opens a fresh store on the application's file; \<open>appCachedValues[appName]\<close>
  creates an empty cache when the table has none for the name.
\<close>

definition appCache :: "'v unisettings \<Rightarrow> string \<Rightarrow> 'v qhash" where
  "appCache s app = (case map_of (appCachedValues s) app of None \<Rightarrow> [] | Some h \<Rightarrow> h)"

definition detectAppChanges ::
  "string \<Rightarrow> string \<Rightarrow> 'v filesystem \<Rightarrow> 'v unisettings \<Rightarrow> 'v qhash \<times> 'v unisettings" where
  "detectAppChanges appConfigPath app fs s =
     (let appSettings = qs_open fs appConfigPath;
          cc = diffAgainst appSettings (appCache s app)
      in (fst cc, s\<lparr>appCachedValues := AList.update app (snd cc) (appCachedValues s)\<rparr>))"

section \<open>UniSettings\<close>

text \<open>
  Every member function takes the directory and the instance and returns the signals it
  emits, in order, with the directory and the instance afterwards. The C++ functions
  return \<open>void\<close> (or the value read): the signals are all a caller receives.
\<close>

definition "value" :: "string \<Rightarrow> 'v qvariant \<Rightarrow> 'v unisettings \<Rightarrow> 'v qvariant" where
  "value key defaultValue s = qs_value (settings s) (fullKey s key) defaultValue"

definition setValue ::
  "string \<Rightarrow> 'v qvariant \<Rightarrow> 'v filesystem \<Rightarrow> 'v unisettings
     \<Rightarrow> 'v signal list \<times> 'v filesystem \<times> 'v unisettings" where
  "setValue key val fs s =
     (let fk = fullKey s key;
          oldValue = qs_value (settings s) fk Invalid
      in if oldValue \<noteq> val then
           (let fq = qs_sync fs (qs_setValue fk val (settings s))
            in ([ValueChanged fk val], fst fq,
                s\<lparr>ignoreNextChange := True, settings := snd fq,
                  cachedValues := hash_insert fk val (cachedValues s)\<rparr>))
         else ([], fs, s))"

definition contains :: "string \<Rightarrow> 'v unisettings \<Rightarrow> bool" where
  "contains key s = qs_contains (settings s) (fullKey s key)"

definition remove ::
  "string \<Rightarrow> 'v filesystem \<Rightarrow> 'v unisettings
     \<Rightarrow> 'v signal list \<times> 'v filesystem \<times> 'v unisettings" where
  "remove key fs s =
     (let fk = fullKey s key;
          fq = qs_sync fs (qs_remove fk (settings s))
      in ([ValueChanged fk Invalid], fst fq,
          s\<lparr>ignoreNextChange := True, settings := snd fq,
            cachedValues := hash_remove fk (cachedValues s)\<rparr>))"

definition allKeys :: "'v unisettings \<Rightarrow> string list" where
  "allKeys s = qs_allKeys (settings s)"

definition clear ::
  "'v filesystem \<Rightarrow> 'v unisettings \<Rightarrow> 'v signal list \<times> 'v filesystem \<times> 'v unisettings" where
  "clear fs s =
     (let fq = qs_sync fs (qs_clear (settings s))
      in ([], fst fq, s\<lparr>ignoreNextChange := True, settings := snd fq, cachedValues := []\<rparr>))"

definition sync ::
  "'v filesystem \<Rightarrow> 'v unisettings \<Rightarrow> 'v signal list \<times> 'v filesystem \<times> 'v unisettings" where
  "sync fs s = (let fq = qs_sync fs (settings s) in ([], fst fq, s\<lparr>settings := snd fq\<rparr>))"

subsection \<open>Groups\<close>

text \<open>
  \<open>QString::lastIndexOf\<close>: the largest index holding the character, or \<open>-1\<close>. The scan
  runs left to right and remembers the latest hit.
\<close>

fun lastIndexFrom :: "char \<Rightarrow> string \<Rightarrow> int \<Rightarrow> int \<Rightarrow> int" where
  "lastIndexFrom c [] i found = found"
| "lastIndexFrom c (x # xs) i found = lastIndexFrom c xs (i + 1) (if x = c then i else found)"

definition lastIndexOf :: "string \<Rightarrow> char \<Rightarrow> int" where
  "lastIndexOf str c = lastIndexFrom c str 0 (- 1)"

definition beginGroup :: "string \<Rightarrow> 'v unisettings \<Rightarrow> 'v unisettings" where
  "beginGroup prefix s =
     (if currentGroup s \<noteq> [] then s\<lparr>currentGroup := currentGroup s @ ''/'' @ prefix\<rparr>
      else s\<lparr>currentGroup := prefix\<rparr>)"

definition endGroup :: "'v unisettings \<Rightarrow> 'v unisettings" where
  "endGroup s =
     (let idx = lastIndexOf (currentGroup s) (CHR ''/'')
      in if idx \<ge> 0 then s\<lparr>currentGroup := take (nat idx) (currentGroup s)\<rparr>
         else s\<lparr>currentGroup := []\<rparr>)"

definition group :: "'v unisettings \<Rightarrow> string" where
  "group s = currentGroup s"

subsection \<open>Construction\<close>

text \<open>
  The constructor of \<open>UniSettingsPrivate\<close> opens the store on \<open>system.conf\<close> or on
  \<open><appName>.conf\<close> and fills the cache. \<open>QFileSystemWatcher::addPath\<close> adds a path that
  exists and is not yet watched.
\<close>

definition newPrivate :: "string \<Rightarrow> scope \<Rightarrow> 'v filesystem \<Rightarrow> 'v unisettings" where
  "newPrivate app sc fs =
     (let path = (if sc = SystemScope then ''system.conf'' else app @ ''.conf'');
          q = qs_open fs path
      in \<lparr>appName = app, scope = sc, configPath = path, settings = q, currentGroup = [],
          watched = [], cachedValues = cacheAllValues q, appCachedValues = [],
          ignoreNextChange = False\<rparr>)"

definition addPath :: "'v filesystem \<Rightarrow> string \<Rightarrow> 'v unisettings \<Rightarrow> 'v unisettings" where
  "addPath fs path s =
     (if file_exists fs path \<and> path \<notin> set (watched s) then s\<lparr>watched := watched s @ [path]\<rparr>
      else s)"

text \<open>\<open>QDir::entryInfoList\<close> with the filter \<open>*.conf\<close>, and \<open>QFileInfo::baseName\<close>: the file
  name up to its first dot.\<close>

definition entryInfoList :: "'v filesystem \<Rightarrow> string list" where
  "entryInfoList fs = remdups (map fst (confFiles fs))"

definition baseName :: "string \<Rightarrow> string" where
  "baseName name = takeWhile (\<lambda>c. c \<noteq> CHR ''.'') name"

text \<open>The loop of the System-scope constructor over the configuration files: each file
  other than the instance's own is watched and its cache initialised, the delta dropped.\<close>

fun seedApps :: "string list \<Rightarrow> 'v filesystem \<Rightarrow> 'v unisettings \<Rightarrow> 'v unisettings" where
  "seedApps [] fs s = s"
| "seedApps (filePath # rest) fs s =
     (if filePath \<noteq> configPath s \<and> filePath \<notin> set (watched s)
      then seedApps rest fs
             (snd (detectAppChanges filePath (baseName filePath) fs (addPath fs filePath s)))
      else seedApps rest fs s)"

definition newSystem :: "'v filesystem \<Rightarrow> 'v unisettings" where
  "newSystem fs =
     (let d = newPrivate ''system'' SystemScope fs;
          d1 = (if file_exists fs (configPath d) then addPath fs (configPath d) d else d)
      in seedApps (entryInfoList fs) fs d1)"

definition newApp :: "string \<Rightarrow> 'v filesystem \<Rightarrow> 'v unisettings" where
  "newApp app fs =
     (let d = newPrivate app ApplicationScope fs
      in if file_exists fs (configPath d) then addPath fs (configPath d) d else d)"

subsection \<open>The debounce timer's callbacks\<close>

definition emitExternal :: "string \<Rightarrow> 'v qhash \<Rightarrow> 'v signal list" where
  "emitExternal owner changes = map (\<lambda>kv. ExternalValueChanged owner (fst kv) (snd kv)) changes"

definition rewatch :: "'v filesystem \<Rightarrow> 'v unisettings \<Rightarrow> 'v unisettings" where
  "rewatch fs s =
     (if configPath s \<notin> set (watched s)
      then (if file_exists fs (configPath s) then addPath fs (configPath s) s else s)
      else s)"

text \<open>The loop of the System-scope callback over the configuration files; \<open>watchApp\<close> is
  its last statement, which adds the file to the watcher if it is not watched yet.\<close>

definition watchApp :: "'v filesystem \<Rightarrow> string \<Rightarrow> 'v unisettings \<Rightarrow> 'v unisettings" where
  "watchApp fs filePath s =
     (if filePath \<notin> set (watched s) then addPath fs filePath s else s)"

fun scanApps ::
  "string list \<Rightarrow> 'v filesystem \<Rightarrow> 'v signal list \<Rightarrow> 'v unisettings
     \<Rightarrow> 'v signal list \<times> 'v unisettings" where
  "scanApps [] fs sigs s = (sigs, s)"
| "scanApps (filePath # rest) fs sigs s =
     (let app = baseName filePath
      in if app \<noteq> ''system'' then
           (let r = detectAppChanges filePath app fs s
            in scanApps rest fs (sigs @ emitExternal app (fst r)) (watchApp fs filePath (snd r)))
         else scanApps rest fs sigs s)"

definition systemTimeout ::
  "'v filesystem \<Rightarrow> 'v unisettings \<Rightarrow> 'v signal list \<times> 'v filesystem \<times> 'v unisettings" where
  "systemTimeout fs s =
     (let r = detectChanges fs s;
          fs1 = fst (snd r);
          sigs = emitExternal ''system'' (fst r);
          r2 = scanApps (entryInfoList fs1) fs1 sigs (snd (snd r))
      in (fst r2, fs1, rewatch fs1 (snd r2)))"

definition appTimeout ::
  "'v filesystem \<Rightarrow> 'v unisettings \<Rightarrow> 'v signal list \<times> 'v filesystem \<times> 'v unisettings" where
  "appTimeout fs s =
     (let r = detectChanges fs s;
          fs1 = fst (snd r);
          s1 = snd (snd r);
          sigs = concat (map (\<lambda>kv. [ValueChanged (fst kv) (snd kv),
                                     ExternalValueChanged (appName s1) (fst kv) (snd kv)])
                             (fst r))
      in (sigs, fs1, rewatch fs1 s1))"

text \<open>Each constructor connects its own callback: the scope selects it.\<close>

definition onTimeout ::
  "'v filesystem \<Rightarrow> 'v unisettings \<Rightarrow> 'v signal list \<times> 'v filesystem \<times> 'v unisettings" where
  "onTimeout fs s =
     (case scope s of SystemScope \<Rightarrow> systemTimeout fs s | ApplicationScope \<Rightarrow> appTimeout fs s)"

text \<open>The owner name under which a callback reports the instance's own file: the literal
  \<open>"system"\<close> in the System-scope callback, \<open>d->appName\<close> in the Application-scope one.\<close>

definition ownerName :: "'v unisettings \<Rightarrow> string" where
  "ownerName s = (case scope s of SystemScope \<Rightarrow> ''system'' | ApplicationScope \<Rightarrow> appName s)"

section \<open>The group stack of the specification\<close>

text \<open>
  The specification speaks of a stack of group prefixes; the code keeps the one string
  \<open>currentGroup\<close>. The two are related by joining with \<open>/\<close> and by cutting at every \<open>/\<close>:
  \<open>segments\<close> is the stack a group string stands for, the empty string standing for the
  empty stack. A prefix that is not empty and holds no \<open>/\<close> is one segment.
\<close>

fun joinSlash :: "string list \<Rightarrow> string" where
  "joinSlash [] = []"
| "joinSlash [x] = x"
| "joinSlash (x # y # ys) = x @ ''/'' @ joinSlash (y # ys)"

fun splitSlash :: "string \<Rightarrow> string list" where
  "splitSlash [] = [[]]"
| "splitSlash (c # cs) =
     (if c = CHR ''/'' then [] # splitSlash cs
      else (c # hd (splitSlash cs)) # tl (splitSlash cs))"

definition segments :: "string \<Rightarrow> string list" where
  "segments g = (if g = [] then [] else splitSlash g)"

definition oneSegment :: "string \<Rightarrow> bool" where
  "oneSegment p = (p \<noteq> [] \<and> CHR ''/'' \<notin> set p)"

section \<open>Two directories used as concrete inputs\<close>

text \<open>
  \<open>exampleDir0\<close> holds an empty \<open>system.conf\<close>; \<open>exampleDir1\<close> holds in addition the file
  \<open>foo.conf\<close> of an application \<open>foo\<close>, with the one key \<open>a = 1\<close>; \<open>exampleDirRO\<close> is
  \<open>exampleDir0\<close> on a file system that refuses writes.
\<close>

definition exampleDir0 :: "int filesystem" where
  "exampleDir0 = \<lparr>confFiles = [(''system.conf'', [])], writable = True\<rparr>"

definition exampleDir1 :: "int filesystem" where
  "exampleDir1 =
     \<lparr>confFiles = [(''system.conf'', []), (''foo.conf'', [(''a'', Value 1)])],
      writable = True\<rparr>"

definition exampleDirRO :: "int filesystem" where
  "exampleDirRO = \<lparr>confFiles = [(''system.conf'', [])], writable = False\<rparr>"

text \<open>\<open>exampleArmed\<close> is the instance of application \<open>foo\<close> right after a first
  \<open>setValue("a", 1)\<close>: the Suppress-Next flag is set.\<close>

definition exampleFresh :: "int unisettings" where
  "exampleFresh = newApp ''foo'' exampleDir0"

definition exampleArmed :: "int unisettings" where
  "exampleArmed = snd (snd (setValue ''a'' (Value 1) exampleDir0 exampleFresh))"

text \<open>\<open>exampleLoaded\<close> is the instance of application \<open>foo\<close> created when \<open>foo.conf\<close>
  exists; \<open>exampleSystem\<close> is the System-scope instance created on \<open>exampleDir0\<close>.\<close>

definition exampleLoaded :: "int unisettings" where
  "exampleLoaded = newApp ''foo'' exampleDir1"

definition exampleSystem :: "int unisettings" where
  "exampleSystem = newSystem exampleDir0"

text \<open>\<open>exampleFailed\<close> is the System-scope instance after a \<open>setValue("a", 1)\<close> whose
  write the file system refused and one timer pass, which that write's flag suppressed:
  the flag is clear again and the store still holds the unsaved change.
  \<open>exampleDir2\<close> is \<open>exampleDir1\<close> after another process set \<open>a = 2\<close> in \<open>foo.conf\<close>.\<close>

definition exampleFailed :: "int unisettings" where
  "exampleFailed =
     snd (snd (detectChanges exampleDirRO
       (snd (snd (setValue ''a'' (Value 1) exampleDirRO exampleSystem)))))"

definition exampleDir2 :: "int filesystem" where
  "exampleDir2 =
     \<lparr>confFiles = [(''system.conf'', []), (''foo.conf'', [(''a'', Value 2)])],
      writable = True\<rparr>"

text \<open>\<open>exampleGrouped\<close> is the instance of \<open>foo\<close> inside the group \<open>ui/theme\<close>.\<close>

definition exampleGrouped :: "int unisettings" where
  "exampleGrouped = beginGroup ''theme'' (beginGroup ''ui'' exampleFresh)"

section \<open>The differencer\<close>

text \<open>What the two loops compute, on the maps the association lists stand for.\<close>

lemma hash_contains_map_of: "hash_contains h k \<longleftrightarrow> map_of h k \<noteq> None"
  by (simp add: hash_contains_def map_of_eq_None_iff)

lemma scanCurrentStep_cond:
  "(\<not> hash_contains c k \<or> v \<noteq> hash_value c k) \<longleftrightarrow> map_of c k \<noteq> Some v"
  by (auto simp: hash_contains_map_of hash_value_def split: option.splits)

lemma scanCurrentStep_alt:
  "scanCurrentStep nv key cc =
     (if map_of (snd cc) key = Some (nv key) then cc
      else (hash_insert key (nv key) (fst cc), hash_insert key (nv key) (snd cc)))"
  using scanCurrentStep_cond [of "snd cc" key "nv key"]
  by (cases cc) (simp add: scanCurrentStep_def Let_def)

lemma scanCurrentStep_snd:
  "map_of (snd (scanCurrentStep nv key cc)) = (map_of (snd cc))(key \<mapsto> nv key)"
  by (auto simp: scanCurrentStep_alt hash_insert_def update_conv')

lemma scanCurrentStep_fst:
  "map_of (fst (scanCurrentStep nv key cc)) =
     (if map_of (snd cc) key = Some (nv key) then map_of (fst cc)
      else (map_of (fst cc))(key \<mapsto> nv key))"
  by (simp add: scanCurrentStep_alt hash_insert_def update_conv')

lemma fold_scanCurrent_snd:
  "map_of (snd (fold (scanCurrentStep nv) ks cc)) k =
     (if k \<in> set ks then Some (nv k) else map_of (snd cc) k)"
  by (induction ks arbitrary: cc) (auto simp: scanCurrentStep_snd)

lemma fold_scanCurrent_fst:
  "map_of (fst (fold (scanCurrentStep nv) ks cc)) k =
     (if k \<in> set ks \<and> map_of (snd cc) k \<noteq> Some (nv k) then Some (nv k)
      else map_of (fst cc) k)"
  by (induction ks arbitrary: cc) (auto simp: scanCurrentStep_snd scanCurrentStep_fst)

lemma fold_scanRemoved_snd:
  "map_of (snd (fold scanRemovedStep ks cc)) k =
     (if k \<in> set ks then None else map_of (snd cc) k)"
  by (induction ks arbitrary: cc) (auto simp: scanRemovedStep_def hash_remove_def delete_conv')

lemma fold_scanRemoved_fst:
  "map_of (fst (fold scanRemovedStep ks cc)) k =
     (if k \<in> set ks then Some Invalid else map_of (fst cc) k)"
  by (induction ks arbitrary: cc) (auto simp: scanRemovedStep_def hash_insert_def update_conv')

lemma set_hash_keys: "set (hash_keys h) = dom (map_of h)"
  by (simp add: hash_keys_def dom_map_of_conv_image_fst)

lemma qs_value_view:
  "map_of (qs_view q) k = Some v \<Longrightarrow> qs_value q k d = v"
  by (simp add: qs_value_def)

lemma diffAgainst_cache:
  "map_of (snd (diffAgainst q cached)) = map_of (qs_view q)"
proof
  fix k
  show "map_of (snd (diffAgainst q cached)) k = map_of (qs_view q) k"
    by (cases "map_of (qs_view q) k")
       (auto simp: diffAgainst_def Let_def fold_scanRemoved_snd fold_scanCurrent_snd
          qs_allKeys_def set_hash_keys qs_value_def)
qed

lemma diffAgainst_delta:
  "map_of (fst (diffAgainst q cached)) k =
     (case map_of (qs_view q) k of
        Some v \<Rightarrow> if map_of cached k = Some v then None else Some v
      | None \<Rightarrow> if map_of cached k = None then None else Some Invalid)"
  by (cases "map_of (qs_view q) k")
     (auto simp: diffAgainst_def Let_def fold_scanRemoved_fst fold_scanCurrent_fst
        qs_allKeys_def set_hash_keys qs_value_def)

lemma fold_scanCurrent_same:
  "\<forall>k\<in>set ks. map_of c k = Some (nv k) \<Longrightarrow> fold (scanCurrentStep nv) ks (ch, c) = (ch, c)"
  by (induction ks) (simp_all add: scanCurrentStep_alt)

lemma diffAgainst_same:
  assumes "map_of cached = map_of (qs_view q)"
  shows "diffAgainst q cached = ([], cached)"
proof -
  have a: "\<forall>k\<in>set (qs_allKeys q). map_of cached k = Some (qs_value q k Invalid)"
    using assms by (auto simp: qs_allKeys_def set_hash_keys qs_value_def)
  have b: "filter (\<lambda>k. k \<notin> set (qs_allKeys q)) (hash_keys cached) = []"
    using assms by (auto simp: filter_empty_conv qs_allKeys_def set_hash_keys)
  show ?thesis
    by (simp add: diffAgainst_def Let_def fold_scanCurrent_same [OF a] b)
qed

section \<open>Synchronising the store with its file\<close>

lemma read_write_file: "read_file (write_file n h fs) n = h"
  by (simp add: read_file_def write_file_def update_conv')

lemma qs_sync_view:
  "pending q = [] \<or> writable fs \<Longrightarrow>
     qs_view (snd (qs_sync fs q)) = read_file (fst (qs_sync fs q)) (fileName q)"
  by (auto simp: qs_sync_def qs_view_def Let_def read_write_file)

lemma qs_sync_pending:
  "pending q = [] \<or> writable fs \<Longrightarrow> pending (snd (qs_sync fs q)) = []"
  by (auto simp: qs_sync_def Let_def)

lemma qs_sync_fileName: "fileName (snd (qs_sync fs q)) = fileName q"
  by (simp add: qs_sync_def Let_def)

lemma qs_sync_loaded:
  "pending q = [] \<or> writable fs \<Longrightarrow>
     loaded (snd (qs_sync fs q)) = read_file (fst (qs_sync fs q)) (fileName q)"
  by (auto simp: qs_sync_def Let_def read_write_file)

lemma qs_sync_readonly: "pending q = [] \<Longrightarrow> fst (qs_sync fs q) = fs"
  by (simp add: qs_sync_def)

lemma qs_sync_idle:
  "pending q = [] \<Longrightarrow> loaded q = read_file fs (fileName q) \<Longrightarrow> qs_sync fs q = (fs, q)"
  by (simp add: qs_sync_def)


lemma map_of_foldl_PSet:
  "map_of (foldl apply_pending h (ps @ [PSet k v])) k = Some v"
  by (simp add: update_conv')

lemma qs_value_after_set:
  "qs_value (snd (qs_sync fs (qs_setValue k v q))) k d = v"
  by (simp add: qs_value_def qs_view_def qs_sync_def qs_setValue_def Let_def update_conv')

section \<open>Signals of the timer callbacks\<close>

lemma emitExternal_owner:
  "e \<in> set (emitExternal owner changes) \<Longrightarrow> \<exists>k v. e = ExternalValueChanged owner k v"
  by (auto simp: emitExternal_def)

lemma scanApps_signals:
  "e \<in> set (fst (scanApps files fs sigs s)) \<Longrightarrow>
     e \<in> set sigs \<or> (\<exists>owner k v. owner \<noteq> ''system'' \<and> e = ExternalValueChanged owner k v)"
proof (induction files arbitrary: sigs s)
  case Nil
  then show ?case by simp
next
  case (Cons f files)
  show ?case
  proof (cases "baseName f = ''system''")
    case True
    then show ?thesis using Cons by simp
  next
    case False
    let ?r = "detectAppChanges f (baseName f) fs s"
    let ?s1 = "watchApp fs f (snd ?r)"
    have "e \<in> set (fst (scanApps files fs (sigs @ emitExternal (baseName f) (fst ?r)) ?s1))"
      using Cons.prems False by (simp add: Let_def)
    from Cons.IH [OF this] show ?thesis
      using False by (auto dest: emitExternal_owner)
  qed
qed

lemma detectChanges_suppressed:
  "ignoreNextChange s \<Longrightarrow> detectChanges fs s = ([], fs, s\<lparr>ignoreNextChange := False\<rparr>)"
  by (simp add: detectChanges_def)

lemma systemTimeout_suppressed:
  assumes "ignoreNextChange s"
  shows "ExternalValueChanged ''system'' k v \<notin> set (fst (systemTimeout fs s))"
proof
  assume "ExternalValueChanged ''system'' k v \<in> set (fst (systemTimeout fs s))"
  then have "ExternalValueChanged ''system'' k v
               \<in> set (fst (scanApps (entryInfoList fs) fs [] (s\<lparr>ignoreNextChange := False\<rparr>)))"
    using assms by (simp add: systemTimeout_def Let_def detectChanges_suppressed emitExternal_def)
  from scanApps_signals [OF this] show False by simp
qed

lemma appTimeout_suppressed:
  "ignoreNextChange s \<Longrightarrow> fst (appTimeout fs s) = []"
  by (simp add: appTimeout_def Let_def detectChanges_suppressed)

section \<open>Self-write suppression\<close>

text \<open>
  C1. When the Suppress-Next flag is set, \<open>detectChanges\<close> clears it and returns the empty
  delta; the store is not reloaded and the cache is not touched (the instance is the same
  but for the flag). Hence after a \<open>setValue\<close> that changed the stored value, which emits
  the local \<open>valueChanged\<close>, the next detection, whatever the directory holds by then,
  returns the empty delta: the Application-scope callback emits nothing, and no callback
  emits \<open>externalValueChanged\<close> under the instance's own owner name.
\<close>

theorem suppressed_detection_skipped:
  "(ignoreNextChange s \<longrightarrow> detectChanges fs s = ([], fs, s\<lparr>ignoreNextChange := False\<rparr>))
   \<and> (qs_value (settings s) (fullKey s k) Invalid \<noteq> v \<longrightarrow>
        (let r = setValue k v fs s; s1 = snd (snd r)
         in fst r = [ValueChanged (fullKey s k) v]
          \<and> ignoreNextChange s1
          \<and> (\<forall>fs'. fst (detectChanges fs' s1) = []
                \<and> (scope s = ApplicationScope \<longrightarrow> fst (onTimeout fs' s1) = [])
                \<and> (\<forall>k' v'. ExternalValueChanged (ownerName s) k' v'
                              \<notin> set (fst (onTimeout fs' s1))))))"
proof (intro conjI impI)
  assume "ignoreNextChange s"
  then show "detectChanges fs s = ([], fs, s\<lparr>ignoreNextChange := False\<rparr>)"
    by (rule detectChanges_suppressed)
next
  assume changed: "qs_value (settings s) (fullKey s k) Invalid \<noteq> v"
  let ?s1 = "snd (snd (setValue k v fs s))"
  have sig: "fst (setValue k v fs s) = [ValueChanged (fullKey s k) v]"
    using changed by (simp add: setValue_def Let_def)
  have armed: "ignoreNextChange ?s1"
    using changed by (simp add: setValue_def Let_def)
  have sc: "scope ?s1 = scope s"
    by (simp add: setValue_def Let_def)
  have after: "fst (detectChanges fs' ?s1) = []
      \<and> (scope s = ApplicationScope \<longrightarrow> fst (onTimeout fs' ?s1) = [])
      \<and> (\<forall>k' v'. ExternalValueChanged (ownerName s) k' v' \<notin> set (fst (onTimeout fs' ?s1)))"
    for fs'
  proof (cases "scope s")
    case SystemScope
    then show ?thesis
      using armed sc
      by (simp add: detectChanges_suppressed onTimeout_def ownerName_def
            systemTimeout_suppressed)
  next
    case ApplicationScope
    then show ?thesis
      using armed sc
      by (simp add: detectChanges_suppressed onTimeout_def appTimeout_suppressed)
  qed
  show "let r = setValue k v fs s; s1 = snd (snd r)
        in fst r = [ValueChanged (fullKey s k) v]
         \<and> ignoreNextChange s1
         \<and> (\<forall>fs'. fst (detectChanges fs' s1) = []
               \<and> (scope s = ApplicationScope \<longrightarrow> fst (onTimeout fs' s1) = [])
               \<and> (\<forall>k' v'. ExternalValueChanged (ownerName s) k' v'
                             \<notin> set (fst (onTimeout fs' s1))))"
    unfolding Let_def using sig armed after by blast
qed

theorem suppressed_detection_skipped_witness:
  "ignoreNextChange exampleArmed
   \<and> detectChanges exampleDir1 exampleArmed
       = ([], exampleDir1, exampleArmed\<lparr>ignoreNextChange := False\<rparr>)
   \<and> qs_value (settings exampleArmed) (fullKey exampleArmed ''b'') Invalid \<noteq> Value 2
   \<and> fst (setValue ''b'' (Value 2) exampleDir0 exampleArmed)
       = [ValueChanged (fullKey exampleArmed ''b'') (Value 2)]
   \<and> fst (onTimeout exampleDir1 (snd (snd (setValue ''b'' (Value 2) exampleDir0 exampleArmed))))
       = []"
proof -
  have h1: "ignoreNextChange exampleArmed" by code_simp
  have h2: "qs_value (settings exampleArmed) (fullKey exampleArmed ''b'') Invalid \<noteq> Value 2"
    by code_simp
  have sc: "scope exampleArmed = ApplicationScope" by code_simp
  show ?thesis
    using h1 h2 sc
      suppressed_detection_skipped [of exampleArmed exampleDir1 "''b''" "Value 2"]
      suppressed_detection_skipped [of exampleArmed exampleDir0 "''b''" "Value 2"]
    unfolding Let_def by blast
qed

section \<open>The delta of a detection pass\<close>

text \<open>
  C2, as the code has it. When the Suppress-Next flag is not set and the store can be
  synchronised with its file (it holds no unsaved change, or the file can be written),
  \<open>detectChanges\<close> returns exactly the delta
  of the cache against the file's content: a key of the file that the cache lacks or holds
  with another value maps to its value in the file, a key of the cache that the file lacks
  maps to the Absent marker \<open>Invalid\<close>, no other key is in the delta, and afterwards the
  cache is the file's key-to-value mapping. With no unsaved change the file is left as it
  was.
\<close>

theorem detectChanges_delta:
  assumes "\<not> ignoreNextChange s" and "pending (settings s) = [] \<or> writable fs"
  shows "let r = detectChanges fs s;
             delta = map_of (fst r);
             disk = map_of (read_file (fst (snd r)) (fileName (settings s)));
             cache = map_of (cachedValues s)
         in (\<forall>k v. disk k = Some v \<and> cache k \<noteq> Some v \<longrightarrow> delta k = Some v)
          \<and> (\<forall>k. disk k = None \<and> cache k \<noteq> None \<longrightarrow> delta k = Some Invalid)
          \<and> (\<forall>k. disk k = cache k \<longrightarrow> delta k = None)
          \<and> map_of (cachedValues (snd (snd r))) = disk
          \<and> (pending (settings s) = [] \<longrightarrow> fst (snd r) = fs)"
proof -
  let ?fq = "qs_sync fs (settings s)"
  have v: "qs_view (snd ?fq) = read_file (fst ?fq) (fileName (settings s))"
    using assms(2) by (rule qs_sync_view)
  have r: "detectChanges fs s =
      (fst (diffAgainst (snd ?fq) (cachedValues s)), fst ?fq,
       s\<lparr>settings := snd ?fq, cachedValues := snd (diffAgainst (snd ?fq) (cachedValues s))\<rparr>)"
    using assms(1) by (simp add: detectChanges_def Let_def)
  show ?thesis
    unfolding r Let_def
    by (auto simp: diffAgainst_delta diffAgainst_cache v qs_sync_readonly split: option.splits)
qed

theorem detectChanges_delta_witness:
  "\<not> ignoreNextChange exampleFresh
   \<and> (pending (settings exampleFresh) = [] \<or> writable exampleDir1)
   \<and> map_of (fst (detectChanges exampleDir1 exampleFresh)) ''a'' = Some (Value 1)
   \<and> map_of (fst (detectChanges exampleDir1 exampleFresh)) ''b'' = None
   \<and> map_of (cachedValues (snd (snd (detectChanges exampleDir1 exampleFresh))))
       = map_of (read_file exampleDir1 ''foo.conf'')"
proof -
  have h1: "\<not> ignoreNextChange exampleFresh" by code_simp
  have h2: "pending (settings exampleFresh) = [] \<or> writable exampleDir1" by code_simp
  have p: "pending (settings exampleFresh) = []" by code_simp
  have fn: "fileName (settings exampleFresh) = ''foo.conf''" by code_simp
  have a: "map_of (read_file exampleDir1 ''foo.conf'') ''a'' = Some (Value 1)" by code_simp
  have ca: "map_of (cachedValues exampleFresh) ''a'' \<noteq> Some (Value 1)" by code_simp
  have b: "map_of (read_file exampleDir1 ''foo.conf'') ''b''
             = map_of (cachedValues exampleFresh) ''b''" by code_simp
  note t = detectChanges_delta [OF h1 h2, unfolded Let_def fn]
  have fs: "fst (snd (detectChanges exampleDir1 exampleFresh)) = exampleDir1"
    using t p by blast
  show ?thesis
    using h1 h2 t a ca b unfolding fs by blast
qed

text \<open>The claim as the specification words it, with the clear flag as its only condition,
  fails at \<open>exampleFailed\<close>: the write is refused again, the store answers with its unsaved
  change, and the pass returns the empty delta while the cache holds the key \<open>a\<close> that
  the file lacks, and keeps it.\<close>

theorem detectChanges_unsynced_counterexample:
  "\<not> ignoreNextChange exampleFailed
   \<and> read_file exampleDirRO (fileName (settings exampleFailed)) = []
   \<and> cachedValues exampleFailed = [(''a'', Value 1)]
   \<and> fst (detectChanges exampleDirRO exampleFailed) = []
   \<and> fst (snd (detectChanges exampleDirRO exampleFailed)) = exampleDirRO
   \<and> cachedValues (snd (snd (detectChanges exampleDirRO exampleFailed))) = [(''a'', Value 1)]"
  by code_simp




section \<open>Writing and reading back\<close>

text \<open>
  C8. For every key, every value with a payload and every default, \<open>value(k, d)\<close> right
  after \<open>setValue(k, v)\<close> on the same instance, the group unchanged, returns \<open>v\<close>.
\<close>

theorem setValue_roundtrip:
  "value k d (snd (snd (setValue k (Value x) fs s))) = Value x"
proof (cases "qs_value (settings s) (fullKey s k) Invalid = Value x")
  case True
  then have "setValue k (Value x) fs s = ([], fs, s)"
    by (simp add: setValue_def Let_def)
  moreover have "qs_value (settings s) (fullKey s k) d = Value x"
    using True by (simp add: qs_value_def split: option.splits)
  ultimately show ?thesis by (simp add: value_def)
next
  case False
  then show ?thesis
    by (simp add: setValue_def Let_def value_def fullKey_def qs_value_after_set)
qed

text \<open>
  C10. \<open>setValue(k, v)\<close> with \<open>v\<close> equal to what the store returns for the effective key
  does nothing: no signal, the directory as it was, and the same instance (store, cache,
  Suppress-Next flag).
\<close>

theorem setValue_same_value_noop:
  "qs_value (settings s) (fullKey s k) Invalid = v \<Longrightarrow> setValue k v fs s = ([], fs, s)"
  by (simp add: setValue_def Let_def)

theorem setValue_same_value_noop_witness:
  "qs_value (settings exampleArmed) (fullKey exampleArmed ''a'') Invalid = Value 1
   \<and> setValue ''a'' (Value 1) exampleDir1 exampleArmed = ([], exampleDir1, exampleArmed)"
proof -
  have h: "qs_value (settings exampleArmed) (fullKey exampleArmed ''a'') Invalid = Value 1"
    by code_simp
  show ?thesis using h setValue_same_value_noop [OF h] by simp
qed

section \<open>Which call emits which signal\<close>

lemma detectChanges_appName: "appName (snd (snd (detectChanges fs s))) = appName s"
  by (simp add: detectChanges_def Let_def)

lemma systemTimeout_signals:
  assumes "e \<in> set (fst (systemTimeout fs s))"
  shows "\<exists>owner k v. e = ExternalValueChanged owner k v"
proof -
  let ?r = "detectChanges fs s"
  have "e \<in> set (fst (scanApps (entryInfoList (fst (snd ?r))) (fst (snd ?r))
                        (emitExternal ''system'' (fst ?r)) (snd (snd ?r))))"
    using assms by (simp add: systemTimeout_def Let_def)
  from scanApps_signals [OF this] show ?thesis
    by (auto dest: emitExternal_owner)
qed

text \<open>
  C4, as the code has it. The System-scope callback emits only \<open>externalValueChanged\<close>.
  The Application-scope callback emits, for every entry of the delta, \<open>valueChanged\<close> and
  then \<open>externalValueChanged\<close> under the application's name. \<open>setValue\<close> and \<open>remove\<close>
  emit only \<open>valueChanged\<close>; \<open>clear\<close> and \<open>sync\<close> emit nothing.
\<close>

theorem signals_by_origin:
  "(scope s = SystemScope \<longrightarrow>
      (\<forall>e\<in>set (fst (onTimeout fs s)). \<exists>owner k' v'. e = ExternalValueChanged owner k' v'))
   \<and> (scope s = ApplicationScope \<longrightarrow>
        fst (onTimeout fs s) =
          concat (map (\<lambda>kv. [ValueChanged (fst kv) (snd kv),
                              ExternalValueChanged (appName s) (fst kv) (snd kv)])
                      (fst (detectChanges fs s))))
   \<and> (\<forall>e\<in>set (fst (setValue k v fs s)). e = ValueChanged (fullKey s k) v)
   \<and> fst (remove k fs s) = [ValueChanged (fullKey s k) Invalid]
   \<and> fst (clear fs s) = []
   \<and> fst (sync fs s) = []"
proof (intro conjI impI)
  assume "scope s = SystemScope"
  then show "\<forall>e\<in>set (fst (onTimeout fs s)). \<exists>owner k' v'. e = ExternalValueChanged owner k' v'"
    by (auto simp: onTimeout_def dest: systemTimeout_signals)
next
  assume "scope s = ApplicationScope"
  then show "fst (onTimeout fs s) =
      concat (map (\<lambda>kv. [ValueChanged (fst kv) (snd kv),
                          ExternalValueChanged (appName s) (fst kv) (snd kv)])
                  (fst (detectChanges fs s)))"
    by (simp add: onTimeout_def appTimeout_def Let_def detectChanges_appName)
next
  show "\<forall>e\<in>set (fst (setValue k v fs s)). e = ValueChanged (fullKey s k) v"
    by (simp add: setValue_def Let_def)
next
  show "fst (remove k fs s) = [ValueChanged (fullKey s k) Invalid]"
    by (simp add: remove_def Let_def)
next
  show "fst (clear fs s) = []" by (simp add: clear_def Let_def)
next
  show "fst (sync fs s) = []" by (simp add: sync_def Let_def)
qed

theorem signals_by_origin_witness:
  "scope exampleSystem = SystemScope
   \<and> ValueChanged ''a'' (Value 1) \<notin> set (fst (onTimeout exampleDir1 exampleSystem))
   \<and> scope exampleFresh = ApplicationScope
   \<and> fst (onTimeout exampleDir1 exampleFresh) =
       concat (map (\<lambda>kv. [ValueChanged (fst kv) (snd kv),
                           ExternalValueChanged (appName exampleFresh) (fst kv) (snd kv)])
                   (fst (detectChanges exampleDir1 exampleFresh)))
   \<and> fst (remove ''a'' exampleDir1 exampleFresh) = [ValueChanged (fullKey exampleFresh ''a'') Invalid]"
proof -
  have h1: "scope exampleSystem = SystemScope" by code_simp
  have h2: "scope exampleFresh = ApplicationScope" by code_simp
  show ?thesis
    using h1 h2
      signals_by_origin [of exampleSystem exampleDir1 "''a''" "Value 1"]
      signals_by_origin [of exampleFresh exampleDir1 "''a''" "Value 1"]
    by blast
qed

text \<open>The claim as the specification words it, that no timer callback emits \<open>valueChanged\<close>,
  fails for an Application-scope instance.\<close>

theorem app_callback_valueChanged_counterexample:
  "scope exampleFresh = ApplicationScope
   \<and> fst (onTimeout exampleDir1 exampleFresh)
       = [ValueChanged ''a'' (Value 1), ExternalValueChanged ''foo'' ''a'' (Value 1)]"
  by code_simp

section \<open>Arming the Suppress-Next flag\<close>

text \<open>
  What the three operations do to the Suppress-Next flag: \<open>setValue\<close> sets it only when
  the new value differs from the stored one (otherwise the flag keeps its state);
  \<open>remove\<close> and \<open>clear\<close> set it on every call.
\<close>

lemma suppress_next_arming:
  "(ignoreNextChange (snd (snd (setValue k v fs s)))
      \<longleftrightarrow> ignoreNextChange s \<or> qs_value (settings s) (fullKey s k) Invalid \<noteq> v)
   \<and> ignoreNextChange (snd (snd (remove k fs s)))
   \<and> ignoreNextChange (snd (snd (clear fs s)))"
  by (simp add: setValue_def remove_def clear_def Let_def)

text \<open>
  C5. The flag is to be armed only by an operation that changes persisted state, as the
  guard of \<open>setValue\<close> does. \<open>remove\<close> and \<open>clear\<close> miss the guard: \<open>remove\<close> of a key
  that is not stored and \<open>clear\<close> of an empty store leave the directory as it was and
  still set the flag, whereas \<open>setValue\<close> of the stored value leaves it clear. The flag
  then swallows the next edit of another process: after the idle \<open>remove\<close> the timer pass
  over \<open>exampleDir2\<close> emits nothing, where without it the pass reports \<open>a = 2\<close>.
\<close>

theorem remove_clear_arm_without_change:
  "\<not> contains ''zz'' exampleLoaded
   \<and> \<not> ignoreNextChange exampleLoaded
   \<and> fst (snd (remove ''zz'' exampleDir1 exampleLoaded)) = exampleDir1
   \<and> ignoreNextChange (snd (snd (remove ''zz'' exampleDir1 exampleLoaded)))
   \<and> allKeys exampleSystem = []
   \<and> \<not> ignoreNextChange exampleSystem
   \<and> fst (snd (clear exampleDir0 exampleSystem)) = exampleDir0
   \<and> ignoreNextChange (snd (snd (clear exampleDir0 exampleSystem)))
   \<and> \<not> ignoreNextChange (snd (snd (setValue ''a'' (Value 1) exampleDir1 exampleLoaded)))
   \<and> fst (onTimeout exampleDir2 (snd (snd (remove ''zz'' exampleDir1 exampleLoaded)))) = []
   \<and> fst (onTimeout exampleDir2 exampleLoaded)
       = [ValueChanged ''a'' (Value 2), ExternalValueChanged ''foo'' ''a'' (Value 2)]"
  by code_simp

section \<open>A write that fails\<close>

lemma qs_sync_unwritable: "\<not> writable fs \<Longrightarrow> fst (qs_sync fs q) = fs"
  by (simp add: qs_sync_def)

text \<open>
  C9, as the code has it. \<open>setValue\<close> and \<open>sync\<close> return nothing and emit the same signals
  whether the write succeeds or fails. When the write of \<open>setValue\<close> fails the file is not
  written, the store records \<open>AccessError\<close> in its status, which no function of
  \<open>UniSettings\<close> reads, and cache, flag and the value read back are those of a write that
  succeeded.
\<close>

theorem write_failure_not_reported:
  "fst (setValue k v (fs\<lparr>writable := False\<rparr>) s) = fst (setValue k v (fs\<lparr>writable := True\<rparr>) s)
   \<and> fst (sync (fs\<lparr>writable := False\<rparr>) s) = fst (sync (fs\<lparr>writable := True\<rparr>) s)
   \<and> fst (snd (setValue k v (fs\<lparr>writable := False\<rparr>) s)) = fs\<lparr>writable := False\<rparr>
   \<and> fst (snd (sync (fs\<lparr>writable := False\<rparr>) s)) = fs\<lparr>writable := False\<rparr>
   \<and> cachedValues (snd (snd (setValue k v (fs\<lparr>writable := False\<rparr>) s)))
       = cachedValues (snd (snd (setValue k v (fs\<lparr>writable := True\<rparr>) s)))
   \<and> ignoreNextChange (snd (snd (setValue k v (fs\<lparr>writable := False\<rparr>) s)))
       = ignoreNextChange (snd (snd (setValue k v (fs\<lparr>writable := True\<rparr>) s)))
   \<and> value k d (snd (snd (setValue k v (fs\<lparr>writable := False\<rparr>) s)))
       = value k d (snd (snd (setValue k v (fs\<lparr>writable := True\<rparr>) s)))
   \<and> (qs_value (settings s) (fullKey s k) Invalid \<noteq> v \<longrightarrow>
        status (settings (snd (snd (setValue k v (fs\<lparr>writable := False\<rparr>) s)))) = AccessError)"
proof (intro conjI impI)
  show "value k d (snd (snd (setValue k v (fs\<lparr>writable := False\<rparr>) s)))
       = value k d (snd (snd (setValue k v (fs\<lparr>writable := True\<rparr>) s)))"
    by (simp add: setValue_def Let_def value_def fullKey_def qs_value_after_set)
next
  assume "qs_value (settings s) (fullKey s k) Invalid \<noteq> v"
  then show "status (settings (snd (snd (setValue k v (fs\<lparr>writable := False\<rparr>) s)))) = AccessError"
    by (simp add: setValue_def Let_def qs_sync_def qs_setValue_def)
qed (simp_all add: setValue_def sync_def Let_def qs_sync_unwritable)

theorem write_failure_not_reported_witness:
  "qs_value (settings exampleSystem) (fullKey exampleSystem ''a'') Invalid \<noteq> Value 1
   \<and> status (settings (snd (snd (setValue ''a'' (Value 1) (exampleDir0\<lparr>writable := False\<rparr>)
                                    exampleSystem)))) = AccessError
   \<and> fst (setValue ''a'' (Value 1) (exampleDir0\<lparr>writable := False\<rparr>) exampleSystem)
       = fst (setValue ''a'' (Value 1) (exampleDir0\<lparr>writable := True\<rparr>) exampleSystem)"
proof -
  have h: "qs_value (settings exampleSystem) (fullKey exampleSystem ''a'') Invalid \<noteq> Value 1"
    by code_simp
  show ?thesis
    using h write_failure_not_reported [of "''a''" "Value 1" exampleDir0 exampleSystem]
    by blast
qed

text \<open>The claim as the specification words it fails: on a file system that refuses the
  write, \<open>setValue\<close> emits its \<open>valueChanged\<close> as on success, the file stays empty, and the
  error is left in the status of the store; a \<open>sync\<close> afterwards fails again and reports
  nothing.\<close>

theorem write_failure_counterexample:
  "\<not> writable exampleDirRO
   \<and> fst (setValue ''a'' (Value 1) exampleDirRO exampleSystem) = [ValueChanged ''a'' (Value 1)]
   \<and> fst (setValue ''a'' (Value 1) exampleDir0 exampleSystem) = [ValueChanged ''a'' (Value 1)]
   \<and> read_file (fst (snd (setValue ''a'' (Value 1) exampleDirRO exampleSystem))) ''system.conf'' = []
   \<and> read_file (fst (snd (setValue ''a'' (Value 1) exampleDir0 exampleSystem))) ''system.conf''
       = [(''a'', Value 1)]
   \<and> status (settings (snd (snd (setValue ''a'' (Value 1) exampleDirRO exampleSystem))))
       = AccessError
   \<and> value ''a'' Invalid (snd (snd (setValue ''a'' (Value 1) exampleDirRO exampleSystem)))
       = Value 1
   \<and> fst (sync exampleDirRO (snd (snd (setValue ''a'' (Value 1) exampleDirRO exampleSystem))))
       = []
   \<and> read_file (fst (snd (sync exampleDirRO
          (snd (snd (setValue ''a'' (Value 1) exampleDirRO exampleSystem)))))) ''system.conf'' = []"
  by code_simp

section \<open>Groups\<close>

lemma splitSlash_nonempty: "splitSlash xs \<noteq> []"
  by (induction xs) auto

lemma joinSlash_Cons: "ys \<noteq> [] \<Longrightarrow> joinSlash (x # ys) = x @ CHR ''/'' # joinSlash ys"
  by (cases ys) auto

lemma joinSlash_splitSlash: "joinSlash (splitSlash xs) = xs"
proof (induction xs)
  case Nil
  then show ?case by simp
next
  case (Cons c cs)
  obtain seg rest where sp: "splitSlash cs = seg # rest"
    using splitSlash_nonempty [of cs] by (cases "splitSlash cs") auto
  show ?case
  proof (cases "c = CHR ''/''")
    case True
    then show ?thesis using Cons by (simp add: joinSlash_Cons splitSlash_nonempty)
  next
    case False
    then show ?thesis using Cons sp by (cases rest) auto
  qed
qed

lemma splitSlash_plain: "CHR ''/'' \<notin> set b \<Longrightarrow> splitSlash b = [b]"
  by (induction b) auto

lemma splitSlash_append:
  "CHR ''/'' \<notin> set b \<Longrightarrow> splitSlash (a @ CHR ''/'' # b) = splitSlash a @ [b]"
proof (induction a)
  case Nil
  then show ?case by (simp add: splitSlash_plain)
next
  case (Cons c cs)
  then show ?case
    using splitSlash_nonempty [of cs] by (cases "splitSlash cs") auto
qed

lemma lastIndexFrom_absent: "c \<notin> set xs \<Longrightarrow> lastIndexFrom c xs i found = found"
  by (induction xs arbitrary: i found) auto

lemma lastIndexFrom_last:
  "c \<notin> set b \<Longrightarrow> lastIndexFrom c (a @ c # b) i found = i + int (length a)"
  by (induction a arbitrary: i found) (auto simp: lastIndexFrom_absent)

lemma endGroup_plain:
  "CHR ''/'' \<notin> set (currentGroup s) \<Longrightarrow> currentGroup (endGroup s) = []"
  by (simp add: endGroup_def lastIndexOf_def lastIndexFrom_absent)

lemma endGroup_slash:
  "currentGroup s = a @ CHR ''/'' # b \<Longrightarrow> CHR ''/'' \<notin> set b \<Longrightarrow> currentGroup (endGroup s) = a"
  by (simp add: endGroup_def lastIndexOf_def lastIndexFrom_last)

lemma endGroup_join:
  "currentGroup (endGroup s) = joinSlash (butlast (segments (currentGroup s)))"
proof (cases "CHR ''/'' \<in> set (currentGroup s)")
  case True
  then obtain a b where g: "currentGroup s = a @ CHR ''/'' # b" and b: "CHR ''/'' \<notin> set b"
    by (auto dest: split_list_last)
  show ?thesis
    using endGroup_slash [OF g b] g b
    by (simp add: segments_def splitSlash_append joinSlash_splitSlash)
next
  case False
  then show ?thesis
    by (simp add: endGroup_plain segments_def splitSlash_plain)
qed

lemma endGroup_segments:
  assumes "[] \<notin> set (segments (currentGroup s))"
  shows "segments (currentGroup (endGroup s)) = butlast (segments (currentGroup s))"
proof (cases "CHR ''/'' \<in> set (currentGroup s)")
  case True
  then obtain a b where g: "currentGroup s = a @ CHR ''/'' # b" and b: "CHR ''/'' \<notin> set b"
    by (auto dest: split_list_last)
  have seg: "segments (currentGroup s) = splitSlash a @ [b]"
    using g b by (simp add: segments_def splitSlash_append)
  have "a \<noteq> []"
    using assms seg by auto
  then show ?thesis
    using endGroup_slash [OF g b] seg by (simp add: segments_def)
next
  case False
  then show ?thesis
    by (simp add: endGroup_plain segments_def splitSlash_plain)
qed

lemma beginGroup_segments:
  assumes "oneSegment p"
  shows "segments (currentGroup (beginGroup p s)) = segments (currentGroup s) @ [p]"
  using assms
  by (simp add: beginGroup_def segments_def oneSegment_def splitSlash_append splitSlash_plain)

text \<open>
  C7. The effective key is the group segments joined by \<open>/\<close>, then \<open>/\<close> and the leaf, when
  there is a group, else the leaf alone; \<open>group()\<close> is the joined prefix; \<open>beginGroup\<close>
  appends the prefix after a \<open>/\<close> when a group is active, and so pushes one segment when
  the prefix is one segment; \<open>endGroup\<close> removes the last \<open>/\<close>-delimited segment, which
  pops the stack when no segment is empty; \<open>endGroup\<close> with no group leaves the instance as
  it is.
\<close>

theorem group_namespace:
  "fullKey s leaf =
     (if segments (group s) = [] then leaf
      else joinSlash (segments (group s)) @ ''/'' @ leaf)
   \<and> group s = joinSlash (segments (group s))
   \<and> (group s \<noteq> [] \<longrightarrow> group (beginGroup p s) = group s @ ''/'' @ p)
   \<and> (group s = [] \<longrightarrow> group (beginGroup p s) = p)
   \<and> (oneSegment p \<longrightarrow> segments (group (beginGroup p s)) = segments (group s) @ [p])
   \<and> group (endGroup s) = joinSlash (butlast (segments (group s)))
   \<and> ([] \<notin> set (segments (group s)) \<longrightarrow>
        segments (group (endGroup s)) = butlast (segments (group s)))
   \<and> (group s = [] \<longrightarrow> endGroup s = s)"
proof (intro conjI impI)
  show "fullKey s leaf =
     (if segments (group s) = [] then leaf
      else joinSlash (segments (group s)) @ ''/'' @ leaf)"
    by (simp add: fullKey_def group_def segments_def splitSlash_nonempty joinSlash_splitSlash)
next
  show "group s = joinSlash (segments (group s))"
    by (simp add: group_def segments_def joinSlash_splitSlash)
next
  assume "group s \<noteq> []"
  then show "group (beginGroup p s) = group s @ ''/'' @ p"
    by (simp add: group_def beginGroup_def)
next
  assume "group s = []"
  then show "group (beginGroup p s) = p"
    by (simp add: group_def beginGroup_def)
next
  assume "oneSegment p"
  then show "segments (group (beginGroup p s)) = segments (group s) @ [p]"
    by (simp add: group_def beginGroup_segments)
next
  show "group (endGroup s) = joinSlash (butlast (segments (group s)))"
    by (simp add: group_def endGroup_join)
next
  assume "[] \<notin> set (segments (group s))"
  then show "segments (group (endGroup s)) = butlast (segments (group s))"
    by (simp add: group_def endGroup_segments)
next
  assume "group s = []"
  then show "endGroup s = s"
    by (simp add: group_def endGroup_def lastIndexOf_def)
qed

theorem group_namespace_witness:
  "group exampleFresh = []
   \<and> endGroup exampleFresh = exampleFresh
   \<and> group (beginGroup ''ui'' exampleFresh) = ''ui''
   \<and> group exampleGrouped \<noteq> []
   \<and> oneSegment ''dark''
   \<and> [] \<notin> set (segments (group exampleGrouped))
   \<and> group (beginGroup ''dark'' exampleGrouped) = group exampleGrouped @ ''/'' @ ''dark''
   \<and> segments (group (beginGroup ''dark'' exampleGrouped))
       = segments (group exampleGrouped) @ [''dark'']
   \<and> segments (group (endGroup exampleGrouped)) = butlast (segments (group exampleGrouped))
   \<and> fullKey exampleGrouped ''font''
       = joinSlash (segments (group exampleGrouped)) @ ''/'' @ ''font''"
proof -
  have h1: "group exampleFresh = []" by code_simp
  have h2: "group exampleGrouped \<noteq> []" by code_simp
  have h3: "oneSegment ''dark''" by code_simp
  have h4: "[] \<notin> set (segments (group exampleGrouped))" by code_simp
  have h5: "segments (group exampleGrouped) \<noteq> []" by code_simp
  note f = group_namespace [of exampleFresh "''font''" "''ui''"]
  note g = group_namespace [of exampleGrouped "''font''" "''dark''"]
  have a: "endGroup exampleFresh = exampleFresh" using f h1 by blast
  have b: "group (beginGroup ''ui'' exampleFresh) = ''ui''" using f h1 by blast
  have c: "group (beginGroup ''dark'' exampleGrouped) = group exampleGrouped @ ''/'' @ ''dark''"
    using g h2 by blast
  have d: "segments (group (beginGroup ''dark'' exampleGrouped))
             = segments (group exampleGrouped) @ [''dark'']"
    using g h3 by blast
  have e: "segments (group (endGroup exampleGrouped)) = butlast (segments (group exampleGrouped))"
    using g h4 by blast
  have k: "fullKey exampleGrouped ''font''
             = joinSlash (segments (group exampleGrouped)) @ ''/'' @ ''font''"
    using g [THEN conjunct1] h5 by simp
  show ?thesis
    using h1 h2 h3 h4 a b c d e k by (intro conjI)
qed

section \<open>Sibling files in the System-scope callback\<close>

lemma qs_view_open: "qs_view (qs_open fs p) = read_file fs p"
  by (simp add: qs_view_def qs_open_def)

lemma appCache_update:
  "appCache (s\<lparr>appCachedValues := AList.update app h (appCachedValues s)\<rparr>) a
     = (if a = app then h else appCache s a)"
  by (simp add: appCache_def update_conv')

lemma appCache_detect_same:
  "appCache (snd (detectAppChanges p app fs s)) app
     = snd (diffAgainst (qs_open fs p) (appCache s app))"
  by (simp add: detectAppChanges_def Let_def appCache_update)

lemma appCache_detect_other:
  "a \<noteq> app \<Longrightarrow> appCache (snd (detectAppChanges p app fs s)) a = appCache s a"
  by (simp add: detectAppChanges_def Let_def appCache_update)

lemma appCache_addPath: "appCache (addPath fs p s) a = appCache s a"
  by (simp add: addPath_def appCache_def)

lemma appCache_watchApp: "appCache (watchApp fs p s) a = appCache s a"
  by (simp add: watchApp_def appCache_addPath)

lemma detectAppChanges_new:
  assumes "appCache s app = []"
  shows "map_of (fst (detectAppChanges p app fs s)) = map_of (read_file fs p)"
proof
  fix k
  show "map_of (fst (detectAppChanges p app fs s)) k = map_of (read_file fs p) k"
    using assms
    by (simp add: detectAppChanges_def Let_def diffAgainst_delta qs_view_open
          split: option.splits)
qed

lemma detectAppChanges_quiet:
  assumes "map_of (appCache s app) = map_of (read_file fs p)"
  shows "fst (detectAppChanges p app fs s) = []"
    and "appCache (snd (detectAppChanges p app fs s)) app = appCache s app"
  using assms
  by (simp_all add: detectAppChanges_def Let_def appCache_update diffAgainst_same qs_view_open)

lemma emitExternal_member:
  "map_of changes k = Some v \<Longrightarrow> ExternalValueChanged owner k v \<in> set (emitExternal owner changes)"
  by (force simp: emitExternal_def dest: map_of_SomeD)

lemma emitExternal_other:
  "owner \<noteq> a \<Longrightarrow> ExternalValueChanged a k v \<notin> set (emitExternal owner changes)"
  by (auto simp: emitExternal_def)

lemma scanApps_mono: "e \<in> set sigs \<Longrightarrow> e \<in> set (fst (scanApps files fs sigs s))"
  by (induction files arbitrary: sigs s) (simp_all add: Let_def)

lemma scanApps_new:
  assumes "name \<in> set files"
    and "\<forall>n\<in>set files. baseName n = baseName name \<longrightarrow> n = name"
    and "baseName name \<noteq> ''system''"
    and "appCache s (baseName name) = []"
    and "map_of (read_file fs name) k = Some v"
  shows "ExternalValueChanged (baseName name) k v \<in> set (fst (scanApps files fs sigs s))"
  using assms(1,2,4)
proof (induction files arbitrary: sigs s)
  case Nil
  then show ?case by simp
next
  case (Cons f files)
  let ?r = "detectAppChanges f (baseName f) fs s"
  let ?s1 = "watchApp fs f (snd ?r)"
  show ?case
  proof (cases "f = name")
    case True
    have "map_of (fst ?r) k = Some v"
      using True Cons.prems(3) assms(5) by (simp add: detectAppChanges_new)
    then have "ExternalValueChanged (baseName name) k v
                 \<in> set (sigs @ emitExternal (baseName f) (fst ?r))"
      using True by (simp add: emitExternal_member)
    then have "ExternalValueChanged (baseName name) k v
                 \<in> set (fst (scanApps files fs (sigs @ emitExternal (baseName f) (fst ?r)) ?s1))"
      by (rule scanApps_mono)
    then show ?thesis
      using True assms(3) by (simp add: Let_def)
  next
    case False
    then have other: "baseName f \<noteq> baseName name" and rest: "name \<in> set files"
      using Cons.prems(1,2) by auto
    have uniq: "\<forall>n\<in>set files. baseName n = baseName name \<longrightarrow> n = name"
      using Cons.prems(2) by simp
    show ?thesis
    proof (cases "baseName f = ''system''")
      case True
      then show ?thesis
        using Cons.IH [OF rest uniq Cons.prems(3)] by simp
    next
      case False
      have "appCache ?s1 (baseName name) = []"
        using other Cons.prems(3) by (simp add: appCache_watchApp appCache_detect_other)
      from Cons.IH [OF rest uniq this] show ?thesis
        using False by (simp add: Let_def)
    qed
  qed
qed

lemma scanApps_cache:
  assumes "name \<in> set files \<or> map_of (appCache s (baseName name)) = map_of (read_file fs name)"
    and "\<forall>n\<in>set files. baseName n = baseName name \<longrightarrow> n = name"
    and "baseName name \<noteq> ''system''"
  shows "map_of (appCache (snd (scanApps files fs sigs s)) (baseName name))
           = map_of (read_file fs name)"
  using assms(1,2)
proof (induction files arbitrary: sigs s)
  case Nil
  then show ?case by simp
next
  case (Cons f files)
  let ?r = "detectAppChanges f (baseName f) fs s"
  let ?s1 = "watchApp fs f (snd ?r)"
  have uniq: "\<forall>n\<in>set files. baseName n = baseName name \<longrightarrow> n = name"
    using Cons.prems(2) by simp
  show ?case
  proof (cases "baseName f = baseName name")
    case True
    then have f: "f = name" using Cons.prems(2) by simp
    have "map_of (appCache ?s1 (baseName name)) = map_of (read_file fs name)"
      using f by (simp add: appCache_watchApp appCache_detect_same diffAgainst_cache qs_view_open)
    then have "name \<in> set files
        \<or> map_of (appCache ?s1 (baseName name)) = map_of (read_file fs name)" by simp
    from Cons.IH [OF this uniq] show ?thesis
      using f assms(3) by (simp add: Let_def)
  next
    case False
    then have fn: "f \<noteq> name" by auto
    show ?thesis
    proof (cases "baseName f = ''system''")
      case True
      have "name \<in> set files
          \<or> map_of (appCache s (baseName name)) = map_of (read_file fs name)"
        using Cons.prems(1) fn by auto
      from Cons.IH [OF this uniq] show ?thesis
        using True by simp
    next
      case sys: False
      have "appCache ?s1 (baseName name) = appCache s (baseName name)"
        using False by (simp add: appCache_watchApp appCache_detect_other)
      then have "name \<in> set files
          \<or> map_of (appCache ?s1 (baseName name)) = map_of (read_file fs name)"
        using Cons.prems(1) fn by auto
      from Cons.IH [OF this uniq] show ?thesis
        using sys by (simp add: Let_def)
    qed
  qed
qed

lemma scanApps_quiet:
  assumes "map_of (appCache s (baseName name)) = map_of (read_file fs name)"
    and "\<forall>n\<in>set files. baseName n = baseName name \<longrightarrow> n = name"
    and "ExternalValueChanged (baseName name) k v \<in> set (fst (scanApps files fs sigs s))"
  shows "ExternalValueChanged (baseName name) k v \<in> set sigs"
  using assms
proof (induction files arbitrary: sigs s)
  case Nil
  then show ?case by simp
next
  case (Cons f files)
  let ?r = "detectAppChanges f (baseName f) fs s"
  let ?s1 = "watchApp fs f (snd ?r)"
  have uniq: "\<forall>n\<in>set files. baseName n = baseName name \<longrightarrow> n = name"
    using Cons.prems(2) by simp
  show ?case
  proof (cases "baseName f = ''system''")
    case True
    then show ?thesis
      using Cons.IH [OF Cons.prems(1) uniq] Cons.prems(3) by simp
  next
    case sys: False
    have run: "ExternalValueChanged (baseName name) k v
        \<in> set (fst (scanApps files fs (sigs @ emitExternal (baseName f) (fst ?r)) ?s1))"
      using Cons.prems(3) sys by (simp add: Let_def)
    show ?thesis
    proof (cases "baseName f = baseName name")
      case True
      then have f: "f = name" using Cons.prems(2) by simp
      have quiet: "fst ?r = []"
        using f Cons.prems(1) by (simp add: detectAppChanges_quiet(1))
      have "appCache ?s1 (baseName name) = appCache s (baseName name)"
        using f Cons.prems(1) by (simp add: appCache_watchApp detectAppChanges_quiet(2))
      then have "map_of (appCache ?s1 (baseName name)) = map_of (read_file fs name)"
        using Cons.prems(1) by simp
      from Cons.IH [OF this uniq run] show ?thesis
        using quiet by (simp add: emitExternal_def)
    next
      case False
      have "appCache ?s1 (baseName name) = appCache s (baseName name)"
        using False by (simp add: appCache_watchApp appCache_detect_other)
      then have "map_of (appCache ?s1 (baseName name)) = map_of (read_file fs name)"
        using Cons.prems(1) by simp
      from Cons.IH [OF this uniq run] show ?thesis
        using False by (simp add: emitExternal_other)
    qed
  qed
qed

lemma detectChanges_readonly:
  "pending (settings s) = [] \<Longrightarrow> fst (snd (detectChanges fs s)) = fs"
  by (simp add: detectChanges_def Let_def qs_sync_readonly)

lemma detectChanges_pending:
  "pending (settings s) = [] \<Longrightarrow> pending (settings (snd (snd (detectChanges fs s)))) = []"
  by (simp add: detectChanges_def Let_def qs_sync_def)

lemma detectChanges_appCache: "appCache (snd (snd (detectChanges fs s))) a = appCache s a"
  by (simp add: detectChanges_def Let_def appCache_def)

lemma detectAppChanges_settings: "settings (snd (detectAppChanges p app fs s)) = settings s"
  by (simp add: detectAppChanges_def Let_def)

lemma addPath_settings: "settings (addPath fs p s) = settings s"
  by (simp add: addPath_def)

lemma scanApps_settings: "settings (snd (scanApps files fs sigs s)) = settings s"
  by (induction files arbitrary: sigs s)
     (simp_all add: Let_def watchApp_def addPath_settings detectAppChanges_settings)

lemma rewatch_settings: "settings (rewatch fs s) = settings s"
  by (simp add: rewatch_def addPath_settings)

lemma rewatch_appCache: "appCache (rewatch fs s) a = appCache s a"
  by (simp add: rewatch_def appCache_addPath)

lemma systemTimeout_unfold:
  assumes "pending (settings s) = []"
  shows "systemTimeout fs s =
     (fst (scanApps (entryInfoList fs) fs (emitExternal ''system'' (fst (detectChanges fs s)))
             (snd (snd (detectChanges fs s)))),
      fs,
      rewatch fs (snd (scanApps (entryInfoList fs) fs
                         (emitExternal ''system'' (fst (detectChanges fs s)))
                         (snd (snd (detectChanges fs s))))))"
  using assms by (simp add: systemTimeout_def Let_def detectChanges_readonly)

text \<open>
  How far the callback goes for a file that is new to the sibling table (the only file of
  that base name, the store holding no unsaved change): the pass emits
  \<open>externalValueChanged\<close> under the application's name for every key the file holds and
  leaves the file's content as the application's cache, so that a following pass over the
  unchanged directory emits nothing under that name.
\<close>

lemma new_sibling_file_reported:
  assumes "pending (settings s) = []"
    and "name \<in> set (entryInfoList fs)"
    and "baseName name \<noteq> ''system''"
    and "\<forall>n\<in>set (entryInfoList fs). baseName n = baseName name \<longrightarrow> n = name"
    and "map_of (appCachedValues s) (baseName name) = None"
  shows "let r = systemTimeout fs s; s' = snd (snd r)
         in (\<forall>k v. map_of (read_file fs name) k = Some v \<longrightarrow>
                     ExternalValueChanged (baseName name) k v \<in> set (fst r))
          \<and> fst (snd r) = fs
          \<and> map_of (appCache s' (baseName name)) = map_of (read_file fs name)
          \<and> (\<forall>k v. ExternalValueChanged (baseName name) k v
                      \<notin> set (fst (systemTimeout fs s')))"
proof -
  let ?d = "detectChanges fs s"
  let ?sc = "scanApps (entryInfoList fs) fs (emitExternal ''system'' (fst ?d)) (snd (snd ?d))"
  let ?s' = "rewatch fs (snd ?sc)"
  have unf: "systemTimeout fs s = (fst ?sc, fs, ?s')"
    using assms(1) by (rule systemTimeout_unfold)
  have "appCache s (baseName name) = []"
    using assms(5) by (simp add: appCache_def)
  then have empty: "appCache (snd (snd ?d)) (baseName name) = []"
    by (simp add: detectChanges_appCache)
  have emitted: "ExternalValueChanged (baseName name) k v \<in> set (fst ?sc)"
    if "map_of (read_file fs name) k = Some v" for k v
    using assms(2,4,3) empty that by (rule scanApps_new)
  have seeded: "map_of (appCache ?s' (baseName name)) = map_of (read_file fs name)"
    using assms(2,4,3) by (simp add: rewatch_appCache scanApps_cache)
  have pend: "pending (settings ?s') = []"
    using assms(1) by (simp add: rewatch_settings scanApps_settings detectChanges_pending)
  let ?d2 = "detectChanges fs ?s'"
  have unf2: "fst (systemTimeout fs ?s') =
      fst (scanApps (entryInfoList fs) fs (emitExternal ''system'' (fst ?d2)) (snd (snd ?d2)))"
    using systemTimeout_unfold [OF pend] by simp
  have seeded2: "map_of (appCache (snd (snd ?d2)) (baseName name)) = map_of (read_file fs name)"
    using seeded by (simp add: detectChanges_appCache)
  have silent: "ExternalValueChanged (baseName name) k v \<notin> set (fst (systemTimeout fs ?s'))"
    for k v
  proof
    assume "ExternalValueChanged (baseName name) k v \<in> set (fst (systemTimeout fs ?s'))"
    then have "ExternalValueChanged (baseName name) k v
        \<in> set (fst (scanApps (entryInfoList fs) fs (emitExternal ''system'' (fst ?d2))
                       (snd (snd ?d2))))"
      by (simp add: unf2)
    from scanApps_quiet [OF seeded2 assms(4) this]
    show False using assms(3) emitExternal_other [of "''system''" "baseName name"] by auto
  qed
  show ?thesis
    unfolding Let_def unf using emitted seeded silent by simp
qed

text \<open>
  C3. A file discovered by a timer pass is to be seeded with its first delta dropped, as
  the constructor does for the files it finds. The callback misses this: the System-scope
  instance created on \<open>exampleDir0\<close> has no cache for \<open>foo\<close> and does not watch
  \<open>foo.conf\<close>, and its callback on \<open>exampleDir1\<close> reports the key the file already holds.
  The instance created on \<open>exampleDir1\<close> has the cache from its constructor, and its
  callback on the same directory emits nothing.
\<close>

theorem new_sibling_flood_at_discovery:
  "map_of (appCachedValues exampleSystem) ''foo'' = None
   \<and> ''foo.conf'' \<notin> set (watched exampleSystem)
   \<and> fst (onTimeout exampleDir1 exampleSystem) = [ExternalValueChanged ''foo'' ''a'' (Value 1)]
   \<and> appCachedValues (newSystem exampleDir1) = [(''foo'', [(''a'', Value (1::int))])]
   \<and> fst (onTimeout exampleDir1 (newSystem exampleDir1)) = []"
  by code_simp

end
